theory Spec2Isabelle
  imports Main "HOL-Library.Sublist"
begin

section \<open>The documentation stager of \<^verbatim>\<open>tools/gen_docs.py\<close>\<close>

text \<open>
  The script copies five Markdown files of the repository root into the virtual file tree
  of the documentation generator and rewrites a few relative links on the way. Text is a
  list of characters; the three search strings and their replacements are ASCII literals.
\<close>

subsection \<open>Python's \<^verbatim>\<open>str.replace\<close> and \<^verbatim>\<open>in\<close>\<close>

text \<open>
  \<^verbatim>\<open>s.replace(old, new)\<close> scans \<open>s\<close> once from the left. Where \<open>old\<close> starts at the
  current position it emits \<open>new\<close> and continues behind the match; elsewhere it copies one
  character. With an empty \<open>old\<close> Python puts \<open>new\<close> before every character and at the end.
\<close>

function replace :: "'a list \<Rightarrow> 'a list \<Rightarrow> 'a list \<Rightarrow> 'a list" where
  "replace old new s =
     (if old = [] then new @ concat (map (\<lambda>c. c # new) s)
      else if s = [] then []
      else if prefix old s then new @ replace old new (drop (length old) s)
      else hd s # replace old new (tl s))"
  by pat_completeness auto
termination
  by (relation "measure (\<lambda>(old, new, s). length s)") auto

declare replace.simps [simp del]

text \<open>\<^verbatim>\<open>pat in s\<close>: the text \<open>s\<close> has an occurrence of \<open>pat\<close>.\<close>

fun contains :: "'a list \<Rightarrow> 'a list \<Rightarrow> bool" where
  "contains pat [] = (pat = [])"
| "contains pat (c # cs) = (prefix pat (c # cs) \<or> contains pat cs)"

subsection \<open>\<^verbatim>\<open>rewrite_links\<close>\<close>

text \<open>
  \<^verbatim>\<open>
  def rewrite_links(name: str, content: str) -> str:
      if name == "index.md":
          content = content.replace("./docs/", "")
          content = content.replace("./_templates/", "_templates/")
          content = content.replace("./LICENSE", "https://github.com/.../blob/main/LICENSE")
      if name == "AGENTS.md":
          content = content.replace("./docs/", "")
      return content
  \<close>
\<close>

definition license_url :: string where
  "license_url = ''https://github.com/artificial-intelligence-first/ssot/blob/main/LICENSE''"

definition rewrite_links :: "string \<Rightarrow> string \<Rightarrow> string" where
  "rewrite_links name content =
     (let content =
            (if name = ''index.md'' then
               (let content = replace ''./docs/'' '''' content;
                    content = replace ''./_templates/'' ''_templates/'' content;
                    content = replace ''./LICENSE'' license_url content
                in content)
             else content);
          content =
            (if name = ''AGENTS.md'' then replace ''./docs/'' '''' content else content)
      in content)"

subsection \<open>The mapping table and the staging loop\<close>

text \<open>
  \<^verbatim>\<open>ROOT\<close> is the parent of the script's directory; a source path is \<^verbatim>\<open>ROOT / "README.md"\<close>.
  Paths are kept symbolic: the root, and a path extended by a relative part.
\<close>

datatype path = ROOT | Slash path string

definition SOURCES :: "(string \<times> path) list" where
  "SOURCES =
     [(''index.md'', Slash ROOT ''README.md''),
      (''AGENTS.md'', Slash ROOT ''AGENTS.md''),
      (''_templates/TOPIC_TEMPLATE.md'', Slash ROOT ''_templates/TOPIC_TEMPLATE.md''),
      (''_templates/SECTION_TEMPLATE.md'', Slash ROOT ''_templates/SECTION_TEMPLATE.md''),
      (''_templates/FRONT_MATTER.md'', Slash ROOT ''_templates/FRONT_MATTER.md'')]"

text \<open>
  What the script cannot control is the host: \<^verbatim>\<open>read_text\<close> raises when the file is
  missing or is not UTF-8, and opening or writing a virtual page may raise as well. No
  \<^verbatim>\<open>try\<close> surrounds either call, so an exception ends the run.
\<close>

datatype error = FileNotFoundError path | UnicodeDecodeError path | WriteError string

record host =
  read_text :: "path \<Rightarrow> error + string"
  write_page :: "string \<Rightarrow> string \<Rightarrow> error option"

text \<open>
  \<^verbatim>\<open>
  for target, source in SOURCES.items():
      text = source.read_text(encoding="utf-8")
      text = rewrite_links(target, text)
      with mkdocs_gen_files.open(target, "w") as dest:
          dest.write(text)
  \<close>
  The state is the list of pages written so far, in the order of the writes; the result
  holds the exception that ended the run, if any.
\<close>

fun stage :: "host \<Rightarrow> (string \<times> path) list \<Rightarrow> (string \<times> string) list
    \<Rightarrow> (string \<times> string) list \<times> error option" where
  "stage h [] pages = (pages, None)"
| "stage h ((target, source) # rest) pages =
     (case read_text h source of
        Inl e \<Rightarrow> (pages, Some e)
      | Inr text \<Rightarrow>
          (let text = rewrite_links target text
           in case write_page h target text of
                Some e \<Rightarrow> (pages, Some e)
              | None \<Rightarrow> stage h rest (pages @ [(target, text)])))"

definition run :: "host \<Rightarrow> (string \<times> string) list \<times> error option" where
  "run h = stage h SOURCES []"

subsection \<open>Notions used to state the properties\<close>

text \<open>
  The search strings of a destination: the first arguments of the \<^verbatim>\<open>replace\<close> calls that
  \<^verbatim>\<open>rewrite_links\<close> makes for it.
\<close>

definition search_strings :: "string \<Rightarrow> string list" where
  "search_strings name =
     (if name = ''index.md'' then [''./docs/'', ''./_templates/'', ''./LICENSE''] else []) @
     (if name = ''AGENTS.md'' then [''./docs/''] else [])"

text \<open>
  \<open>no_start pat w\<close>: no occurrence of \<open>pat\<close> can begin inside \<open>w\<close>, whatever follows \<open>w\<close>;
  no suffix of \<open>w\<close> and \<open>pat\<close> are comparable as prefixes. \<open>no_start pat (tl pat)\<close> says that
  two occurrences of \<open>pat\<close> never overlap.
\<close>

fun no_start :: "'a list \<Rightarrow> 'a list \<Rightarrow> bool" where
  "no_start pat [] = True"
| "no_start pat (c # cs) =
     (\<not> prefix pat (c # cs) \<and> \<not> prefix (c # cs) pat \<and> no_start pat cs)"

text \<open>
  \<open>guarded B pats after_B s\<close>: no occurrence of a string of \<open>pats\<close> in \<open>s\<close> directly follows
  a character of \<open>B\<close>; \<open>after_B\<close> tells whether the character before \<open>s\<close> is one of \<open>B\<close>.
  A text is well separated when every occurrence of \<^verbatim>\<open>./docs/\<close> or \<^verbatim>\<open>./_templates/\<close> starts
  the text or follows a character that occurs in neither string, as in a Markdown link
  \<^verbatim>\<open>[guide](./docs/guide.md)\<close>.
\<close>

fun guarded :: "'a set \<Rightarrow> 'a list list \<Rightarrow> bool \<Rightarrow> 'a list \<Rightarrow> bool" where
  "guarded B pats after_B [] = True"
| "guarded B pats after_B (c # cs) =
     ((after_B \<longrightarrow> (\<forall>pat \<in> set pats. \<not> prefix pat (c # cs))) \<and> guarded B pats (c \<in> B) cs)"

definition well_separated :: "string \<Rightarrow> bool" where
  "well_separated s =
     guarded (set (''./docs/'' @ ''./_templates/'')) [''./docs/'', ''./_templates/''] False s"

text \<open>
  Observations of one entry of the mapping table under a host: whether its read and its
  write succeed, the page it writes, and the exception it raises.
\<close>

definition staged :: "host \<Rightarrow> string \<times> path \<Rightarrow> bool" where
  "staged h e =
     (case read_text h (snd e) of
        Inl x \<Rightarrow> False
      | Inr text \<Rightarrow> write_page h (fst e) (rewrite_links (fst e) text) = None)"

definition page_of :: "host \<Rightarrow> string \<times> path \<Rightarrow> string \<times> string" where
  "page_of h e =
     (fst e, rewrite_links (fst e) (case read_text h (snd e) of Inl x \<Rightarrow> [] | Inr text \<Rightarrow> text))"

definition failure_of :: "host \<Rightarrow> string \<times> path \<Rightarrow> error option" where
  "failure_of h e =
     (case read_text h (snd e) of
        Inl x \<Rightarrow> Some x
      | Inr text \<Rightarrow> write_page h (fst e) (rewrite_links (fst e) text))"

subsection \<open>The rules as data, as the specification describes them\<close>

text \<open>
  The specification keeps, for each destination, an ordered list of pairs of a literal
  substring and its replacement, applied in sequence to the full text; a rule replaces every
  occurrence of the substring. Here a rule cuts the text at the occurrences of the substring
  and joins the pieces with the replacement. (Python refuses to split at an empty separator;
  the definition leaves the text in one piece then.)
\<close>

function split_on :: "'a list \<Rightarrow> 'a list \<Rightarrow> 'a list list" where
  "split_on old s =
     (if old = [] \<or> s = [] then [s]
      else if prefix old s then [] # split_on old (drop (length old) s)
      else (case split_on old (tl s) of
              [] \<Rightarrow> [[hd s]]
            | p # ps \<Rightarrow> (hd s # p) # ps))"
  by pat_completeness auto
termination
  by (relation "measure (\<lambda>(old, s). length s)") auto

declare split_on.simps [simp del]

fun join :: "'a list \<Rightarrow> 'a list list \<Rightarrow> 'a list" where
  "join new [] = []"
| "join new [p] = p"
| "join new (p # q # ps) = p @ new @ join new (q # ps)"

definition spec_replace_every :: "'a list \<Rightarrow> 'a list \<Rightarrow> 'a list \<Rightarrow> 'a list" where
  "spec_replace_every old new s = join new (split_on old s)"

definition spec_index_rules :: "(string \<times> string) list" where
  "spec_index_rules =
     [(''./docs/'', ''''),
      (''./_templates/'', ''_templates/''),
      (''./LICENSE'', ''https://github.com/artificial-intelligence-first/ssot/blob/main/LICENSE'')]"

fun spec_apply_rules :: "(string \<times> string) list \<Rightarrow> string \<Rightarrow> string" where
  "spec_apply_rules [] s = s"
| "spec_apply_rules ((old, new) # rules) s = spec_apply_rules rules (spec_replace_every old new s)"

subsection \<open>Example hosts\<close>

text \<open>
  A host where every source holds the same one-line text, and one where \<^verbatim>\<open>AGENTS.md\<close> is
  missing.
\<close>

definition host_ok :: host where
  "host_ok = \<lparr>read_text = (\<lambda>p. Inr ''[a](./docs/x.md)''), write_page = (\<lambda>t s. None)\<rparr>"

definition host_no_agents :: host where
  "host_no_agents =
     \<lparr>read_text = (\<lambda>p. if p = Slash ROOT ''AGENTS.md'' then Inl (FileNotFoundError p)
                        else Inr ''[a](./docs/x.md)''),
      write_page = (\<lambda>t s. None)\<rparr>"

section \<open>The scan of \<^verbatim>\<open>replace\<close>\<close>

lemma replace_Nil: "old \<noteq> [] \<Longrightarrow> replace old new [] = []"
  by (simp add: replace.simps)

lemma replace_match:
  "old \<noteq> [] \<Longrightarrow> prefix old s \<Longrightarrow>
     replace old new s = new @ replace old new (drop (length old) s)"
  by (subst replace.simps) auto

lemma replace_skip:
  "old \<noteq> [] \<Longrightarrow> \<not> prefix old (c # cs) \<Longrightarrow>
     replace old new (c # cs) = c # replace old new cs"
  by (subst replace.simps) simp

lemmas replace_eval = replace_Nil replace_match replace_skip

lemma contains_iff: "contains pat s \<longleftrightarrow> (\<exists>u v. s = u @ pat @ v)"
proof (induction s)
  case Nil
  show ?case by simp
next
  case (Cons c cs)
  show ?case
  proof
    assume "contains pat (c # cs)"
    then consider "prefix pat (c # cs)" | "contains pat cs" by auto
    then show "\<exists>u v. c # cs = u @ pat @ v"
    proof cases
      case 1
      then obtain v where "c # cs = pat @ v" by (auto simp: prefix_def)
      then have "c # cs = [] @ pat @ v" by simp
      then show ?thesis by blast
    next
      case 2
      with Cons.IH obtain u v where "cs = u @ pat @ v" by blast
      then have "c # cs = (c # u) @ pat @ v" by simp
      then show ?thesis by blast
    qed
  next
    assume "\<exists>u v. c # cs = u @ pat @ v"
    then obtain u v where uv: "c # cs = u @ pat @ v" by blast
    show "contains pat (c # cs)"
    proof (cases u)
      case Nil
      with uv have "prefix pat (c # cs)" by (simp add: prefix_def)
      then show ?thesis by simp
    next
      case (Cons d u')
      with uv have "cs = u' @ pat @ v" by simp
      with Cons.IH have "contains pat cs" by blast
      then show ?thesis by simp
    qed
  qed
qed

text \<open>A text without an occurrence of \<open>old\<close> is returned as it is.\<close>

lemma replace_absent: "old \<noteq> [] \<Longrightarrow> \<not> contains old s \<Longrightarrow> replace old new s = s"
  by (induction s) (simp_all add: replace_Nil replace_skip)

lemma contains_drop: "contains pat (drop n s) \<Longrightarrow> contains pat s"
proof (induction s arbitrary: n)
  case Nil
  then show ?case by simp
next
  case (Cons c cs)
  show ?case
  proof (cases n)
    case 0
    with Cons.prems show ?thesis by simp
  next
    case (Suc m)
    with Cons.prems have "contains pat (drop m cs)" by simp
    then have "contains pat cs" by (rule Cons.IH)
    then show ?thesis by simp
  qed
qed

lemma contains_behind: "no_start pat new \<Longrightarrow> contains pat (new @ t) \<Longrightarrow> contains pat t"
proof (induction new)
  case Nil
  then show ?case by simp
next
  case (Cons c cs)
  from Cons.prems(1) have a: "\<not> prefix pat (c # cs)" and b: "\<not> prefix (c # cs) pat"
    and c: "no_start pat cs" by simp_all
  have "\<not> prefix pat ((c # cs) @ t)"
  proof
    assume "prefix pat ((c # cs) @ t)"
    then have "prefix pat (c # cs) \<or> (\<exists>us. pat = (c # cs) @ us \<and> prefix us t)"
      by (simp only: prefix_append)
    with a obtain us where "pat = (c # cs) @ us" by blast
    then have "prefix (c # cs) pat" by (rule prefixI)
    with b show False ..
  qed
  with Cons.prems(2) have "contains pat (cs @ t)" by simp
  with Cons.IH [OF c] show ?case .
qed

text \<open>
  With the first match at the end of \<open>u\<close>, the scan copies \<open>u\<close>, emits \<open>new\<close> and goes on
  behind the match: what it has emitted is never read again.
\<close>

lemma prefix_of_longer:
  assumes "prefix old (xs @ old @ v)" and "xs \<noteq> []"
  shows "prefix old (xs @ butlast old)"
proof -
  have "prefix (xs @ butlast old) (xs @ old @ v)"
    by (metis append_butlast_last_id append_assoc butlast.simps(1) prefixI prefix_order.order_refl
        same_prefix_prefix self_append_conv2)
  moreover have "length old \<le> length (xs @ butlast old)"
    using assms(2) by (cases xs) auto
  ultimately show ?thesis
    using assms(1) prefix_length_prefix by blast
qed

lemma replace_first_match:
  assumes "old \<noteq> []" and "\<not> contains old (u @ butlast old)"
  shows "replace old new (u @ old @ v) = u @ new @ replace old new v"
  using assms(2)
proof (induction u)
  case Nil
  show ?case using assms(1) by (simp add: replace_match)
next
  case (Cons c cs)
  from Cons.prems have np: "\<not> prefix old ((c # cs) @ butlast old)"
    and nc: "\<not> contains old (cs @ butlast old)" by simp_all
  have "\<not> prefix old ((c # cs) @ old @ v)"
    using np prefix_of_longer [of old "c # cs" v] by blast
  then have "replace old new ((c # cs) @ old @ v) = c # replace old new (cs @ old @ v)"
    using assms(1) by (simp add: replace_skip)
  with Cons.IH [OF nc] show ?case by simp
qed

subsection \<open>Every occurrence of a string that cannot overlap itself is replaced\<close>

lemma no_start_suffix: "no_start pat (a @ us) \<Longrightarrow> us \<noteq> [] \<Longrightarrow> \<not> prefix us pat"
proof (induction a)
  case Nil
  then show ?case by (cases us) simp_all
next
  case (Cons x a)
  then show ?case by simp
qed

lemma border_free_skip:
  assumes "no_start old (tl old)" and "u \<noteq> []" and "\<not> prefix old u"
  shows "\<not> prefix old (u @ old @ v)"
proof
  assume "prefix old (u @ old @ v)"
  then have "prefix old u \<or> (\<exists>us. old = u @ us \<and> prefix us (old @ v))"
    by (simp only: prefix_append)
  with assms(3) obtain us where us: "old = u @ us" and pre: "prefix us (old @ v)" by blast
  from us assms(3) have ne: "us \<noteq> []" by auto
  from us assms(2) have "length us < length old" by (cases u) auto
  with pre have "prefix us old"
    by (auto simp: prefix_append)
  moreover from us assms(2) have "tl old = tl u @ us" by (cases u) auto
  with assms(1) ne have "\<not> prefix us old" using no_start_suffix by metis
  ultimately show False by blast
qed

lemma replace_occurrence:
  assumes "old \<noteq> []" and "no_start old (tl old)"
  shows "replace old new (u @ old @ v) = replace old new u @ new @ replace old new v"
  using assms
proof (induction old new u rule: replace.induct)
  case (1 old new u)
  note old = \<open>old \<noteq> []\<close>
  show ?case
  proof (cases u)
    case Nil
    with old show ?thesis by (simp add: replace_Nil replace_match)
  next
    case (Cons c cs)
    show ?thesis
    proof (cases "prefix old u")
      case True
      then have "prefix old (u @ old @ v)" by (rule prefix_prefix)
      then have "replace old new (u @ old @ v) =
          new @ replace old new (drop (length old) (u @ old @ v))"
        using old by (rule replace_match [rotated])
      moreover have "drop (length old) (u @ old @ v) = drop (length old) u @ old @ v"
        using True by (simp add: prefix_length_le)
      moreover have "replace old new (drop (length old) u @ old @ v) =
          replace old new (drop (length old) u) @ new @ replace old new v"
        using "1.IH"(1) old Cons True "1.prems" by simp
      ultimately show ?thesis using old True by (simp add: replace_match)
    next
      case False
      have "\<not> prefix old (u @ old @ v)"
        using border_free_skip [OF "1.prems"(2) _ False] Cons by simp
      then have "replace old new (u @ old @ v) = c # replace old new (cs @ old @ v)"
        using old Cons by (simp add: replace_skip)
      moreover have "replace old new (cs @ old @ v) =
          replace old new cs @ new @ replace old new v"
        using "1.IH"(2) old Cons False "1.prems" by simp
      ultimately show ?thesis using old False Cons by (simp add: replace_skip)
    qed
  qed
qed

subsection \<open>The scan agrees with cutting and joining\<close>

lemma split_on_nonempty: "split_on old s \<noteq> []"
  by (subst split_on.simps) (simp split: list.split)

lemma join_Cons_Cons: "ps \<noteq> [] \<Longrightarrow> join new ([] # ps) = new @ join new ps"
  by (cases ps) simp_all

lemma join_push: "join new ((c # p) # ps) = c # join new (p # ps)"
  by (cases ps) simp_all

lemma replace_is_split_join:
  "old \<noteq> [] \<Longrightarrow> replace old new s = spec_replace_every old new s"
proof (induction old new s rule: replace.induct)
  case (1 old new s)
  note old = \<open>old \<noteq> []\<close>
  show ?case
  proof (cases s)
    case Nil
    with old show ?thesis
      by (simp add: replace_Nil spec_replace_every_def split_on.simps)
  next
    case (Cons c cs)
    show ?thesis
    proof (cases "prefix old s")
      case True
      have "split_on old s = [] # split_on old (drop (length old) s)"
        using old True Cons by (subst split_on.simps) simp
      then have "spec_replace_every old new s =
          new @ spec_replace_every old new (drop (length old) s)"
        by (simp add: spec_replace_every_def join_Cons_Cons split_on_nonempty)
      moreover have "replace old new (drop (length old) s) =
          spec_replace_every old new (drop (length old) s)"
        using "1.IH"(1) old Cons True by simp
      ultimately show ?thesis using old True by (simp add: replace_match)
    next
      case False
      obtain p ps where pps: "split_on old cs = p # ps"
        using split_on_nonempty [of old cs] by (cases "split_on old cs") auto
      have "split_on old s = (c # p) # ps"
        using old False Cons pps by (subst split_on.simps) simp
      then have "spec_replace_every old new s = c # spec_replace_every old new cs"
        by (simp add: spec_replace_every_def join_push pps)
      moreover have "replace old new cs = spec_replace_every old new cs"
        using "1.IH"(2) old Cons False by simp
      ultimately show ?thesis using old False Cons by (simp add: replace_skip)
    qed
  qed
qed

subsection \<open>When a replacement cannot complete an occurrence\<close>

text \<open>
  A prefix of the output that avoids the first character of \<open>new\<close> was copied, so it is a
  prefix of the input.
\<close>

lemma prefix_back_new:
  assumes "old \<noteq> []" and "new \<noteq> []"
  shows "hd new \<notin> set q \<Longrightarrow> prefix q (replace old new s) \<Longrightarrow> prefix q s"
proof (induction q arbitrary: s)
  case Nil
  show ?case by simp
next
  case (Cons x q)
  show ?case
  proof (cases s)
    case Nil
    with Cons.prems assms show ?thesis by (simp add: replace_Nil)
  next
    case (Cons c cs)
    show ?thesis
    proof (cases "prefix old s")
      case True
      then have "replace old new s = new @ replace old new (drop (length old) s)"
        using assms(1) by (rule replace_match [rotated])
      with Cons.prems(2) assms(2) have "x = hd new"
        by (cases new) simp_all
      with Cons.prems(1) show ?thesis by simp
    next
      case False
      with Cons have "replace old new s = c # replace old new cs"
        using assms(1) by (simp add: replace_skip)
      with Cons.prems have "x = c" and "prefix q (replace old new cs)" and "hd new \<notin> set q"
        by simp_all
      with Cons.IH have "prefix q cs" by blast
      with \<open>x = c\<close> Cons show ?thesis by simp
    qed
  qed
qed

text \<open>A rule does not create an occurrence of \<open>pat\<close> in a text that has none.\<close>

lemma replace_keeps_absent:
  assumes "old \<noteq> []" and "new \<noteq> []" and "hd new \<notin> set (tl pat)" and "no_start pat new"
  shows "\<not> contains pat s \<Longrightarrow> \<not> contains pat (replace old new s)"
  using assms
proof (induction old new s rule: replace.induct)
  case (1 old new s)
  note old = \<open>old \<noteq> []\<close> and new = \<open>new \<noteq> []\<close>
  show ?case
  proof (cases s)
    case Nil
    with "1.prems"(1) old show ?thesis by (simp add: replace_Nil)
  next
    case (Cons c cs)
    show ?thesis
    proof (cases "prefix old s")
      case True
      have "\<not> contains pat (drop (length old) s)"
        using "1.prems"(1) contains_drop by blast
      then have "\<not> contains pat (replace old new (drop (length old) s))"
        using "1.IH"(1) old Cons True "1.prems" by simp
      then have "\<not> contains pat (new @ replace old new (drop (length old) s))"
        using contains_behind [OF \<open>no_start pat new\<close>] by blast
      then show ?thesis using old True by (simp add: replace_match)
    next
      case False
      from "1.prems"(1) Cons have np: "\<not> prefix pat (c # cs)" and nc: "\<not> contains pat cs"
        by simp_all
      have rec: "\<not> contains pat (replace old new cs)"
        using "1.IH"(2) old Cons False nc "1.prems" by simp
      have "\<not> prefix pat (c # replace old new cs)"
      proof
        assume p: "prefix pat (c # replace old new cs)"
        show False
        proof (cases pat)
          case Nil
          with np show False by simp
        next
          case (Cons x q)
          with p have "x = c" and "prefix q (replace old new cs)" by simp_all
          moreover have "hd new \<notin> set q" using "1.prems"(4) Cons by simp
          ultimately have "prefix q cs" using prefix_back_new [OF old new] by blast
          with \<open>x = c\<close> Cons np show False by simp
        qed
      qed
      with rec have "\<not> contains pat (c # replace old new cs)" by simp
      then show ?thesis using old False Cons by (simp add: replace_skip)
    qed
  qed
qed

text \<open>A rule whose replacement is non-empty and cannot complete a match leaves no match.\<close>

lemma replace_removes:
  assumes "old \<noteq> []" and "new \<noteq> []" and "hd new \<notin> set (tl old)" and "no_start old new"
  shows "\<not> contains old (replace old new s)"
  using assms
proof (induction old new s rule: replace.induct)
  case (1 old new s)
  note old = \<open>old \<noteq> []\<close> and new = \<open>new \<noteq> []\<close>
  show ?case
  proof (cases s)
    case Nil
    with old show ?thesis by (simp add: replace_Nil)
  next
    case (Cons c cs)
    show ?thesis
    proof (cases "prefix old s")
      case True
      have "\<not> contains old (replace old new (drop (length old) s))"
        using "1.IH"(1) old Cons True "1.prems" by simp
      then have "\<not> contains old (new @ replace old new (drop (length old) s))"
        using contains_behind [OF \<open>no_start old new\<close>] by blast
      then show ?thesis using old True by (simp add: replace_match)
    next
      case False
      have rec: "\<not> contains old (replace old new cs)"
        using "1.IH"(2) old Cons False "1.prems" by simp
      have "\<not> prefix old (c # replace old new cs)"
      proof
        assume p: "prefix old (c # replace old new cs)"
        have hd: "hd old = c" and tl: "prefix (tl old) (replace old new cs)"
          using p old by (cases old; auto)+
        from tl have "prefix (tl old) cs"
          using prefix_back_new [OF old new] "1.prems"(3) by blast
        with hd old have "prefix old (c # cs)" by (cases old) auto
        with False Cons show False by simp
      qed
      with rec have "\<not> contains old (c # replace old new cs)" by simp
      then show ?thesis using old False Cons by (simp add: replace_skip)
    qed
  qed
qed

subsection \<open>Guarded texts\<close>

lemma guarded_weaken: "guarded B pats ab s \<Longrightarrow> guarded B pats False s"
  by (cases s) simp_all

lemma guarded_drop: "guarded B pats ab s \<Longrightarrow> \<exists>ab'. guarded B pats ab' (drop n s)"
proof (induction s arbitrary: ab n)
  case Nil
  show ?case by simp
next
  case (Cons c cs)
  show ?case
  proof (cases n)
    case 0
    with Cons.prems show ?thesis by auto
  next
    case (Suc m)
    from Cons.prems have "guarded B pats (c \<in> B) cs" by simp
    then have "\<exists>ab'. guarded B pats ab' (drop m cs)" by (rule Cons.IH)
    with Suc show ?thesis by simp
  qed
qed

lemma prefix_back_guarded:
  assumes "old \<noteq> []" and "old \<in> set pats"
  shows "guarded B pats True s \<Longrightarrow> set (butlast q) \<subseteq> B \<Longrightarrow>
    prefix q (replace old new s) \<Longrightarrow> prefix q s"
proof (induction q arbitrary: s)
  case Nil
  show ?case by simp
next
  case (Cons x q)
  show ?case
  proof (cases s)
    case Nil
    with Cons.prems assms show ?thesis by (simp add: replace_Nil)
  next
    case (Cons c cs)
    with Cons.prems(1) assms(2) have nm: "\<not> prefix old (c # cs)"
      and g: "guarded B pats (c \<in> B) cs" by auto
    from nm have "replace old new (c # cs) = c # replace old new cs"
      using assms(1) by (simp add: replace_skip)
    with Cons.prems(3) Cons have xc: "x = c" and pq: "prefix q (replace old new cs)"
      by simp_all
    show ?thesis
    proof (cases q)
      case Nil
      with xc Cons show ?thesis by simp
    next
      case (Cons y q')
      with Cons.prems(2) have "x \<in> B" and "set (butlast q) \<subseteq> B" by auto
      with g xc have "guarded B pats True cs" by simp
      then have "prefix q cs" using \<open>set (butlast q) \<subseteq> B\<close> pq by (rule Cons.IH)
      with xc \<open>s = c # cs\<close> show ?thesis by simp
    qed
  qed
qed

lemma prefix_step_guarded:
  assumes "old \<noteq> []" and "old \<in> set pats" and "set (butlast pat) \<subseteq> B"
    and "guarded B pats (c \<in> B) cs" and "prefix pat (c # replace old new cs)"
  shows "prefix pat (c # cs)"
proof (cases pat)
  case Nil
  then show ?thesis by simp
next
  case (Cons x q)
  with assms(5) have xc: "x = c" and pq: "prefix q (replace old new cs)" by simp_all
  show ?thesis
  proof (cases q)
    case Nil
    with xc Cons show ?thesis by simp
  next
    case (Cons y q')
    with \<open>pat = x # q\<close> assms(3) have "x \<in> B" and "set (butlast q) \<subseteq> B" by auto
    with assms(4) xc have "guarded B pats True cs" by simp
    then have "prefix q cs"
      using prefix_back_guarded [OF assms(1,2)] \<open>set (butlast q) \<subseteq> B\<close> pq by blast
    with xc \<open>pat = x # q\<close> show ?thesis by simp
  qed
qed

text \<open>In a guarded text the scan leaves no occurrence of \<open>old\<close>, also when \<open>new\<close> is empty.\<close>

lemma replace_removes_guarded:
  assumes "old \<noteq> []" and "old \<in> set pats" and "set (butlast old) \<subseteq> B" and "no_start old new"
  shows "guarded B pats ab s \<Longrightarrow> \<not> contains old (replace old new s)"
  using assms
proof (induction old new s arbitrary: ab rule: replace.induct)
  case (1 old new s)
  note old = \<open>old \<noteq> []\<close>
  show ?case
  proof (cases s)
    case Nil
    with old show ?thesis by (simp add: replace_Nil)
  next
    case (Cons c cs)
    show ?thesis
    proof (cases "prefix old s")
      case True
      obtain ab' where "guarded B pats ab' (drop (length old) s)"
        using guarded_drop [OF "1.prems"(1)] by blast
      then have "\<not> contains old (replace old new (drop (length old) s))"
        using "1.IH"(1) old Cons True "1.prems" by simp
      then have "\<not> contains old (new @ replace old new (drop (length old) s))"
        using contains_behind [OF \<open>no_start old new\<close>] by blast
      then show ?thesis using old True by (simp add: replace_match)
    next
      case False
      from "1.prems"(1) Cons have g: "guarded B pats (c \<in> B) cs" by simp
      then have rec: "\<not> contains old (replace old new cs)"
        using "1.IH"(2) old Cons False "1.prems" by simp
      have "\<not> prefix old (c # replace old new cs)"
        using prefix_step_guarded [OF old "1.prems"(3,4) g] False Cons by blast
      with rec have "\<not> contains old (c # replace old new cs)" by simp
      then show ?thesis using old False Cons by (simp add: replace_skip)
    qed
  qed
qed

text \<open>Removing the matches of \<open>old\<close> from a guarded text leaves it guarded.\<close>

lemma guarded_replace_empty:
  assumes "old \<noteq> []" and "old \<in> set pats" and "set pats' \<subseteq> set pats"
    and "\<forall>pat \<in> set pats'. set (butlast pat) \<subseteq> B"
  shows "guarded B pats ab s \<Longrightarrow> guarded B pats' ab (replace old [] s)"
  using assms(1,2)
proof (induction old "[] :: 'a list" s arbitrary: ab rule: replace.induct)
  case (1 old s)
  note old = \<open>old \<noteq> []\<close>
  show ?case
  proof (cases s)
    case Nil
    with old show ?thesis by (simp add: replace_Nil)
  next
    case (Cons c cs)
    show ?thesis
    proof (cases "prefix old s")
      case True
      obtain ab' where "guarded B pats ab' (drop (length old) s)"
        using guarded_drop [OF "1.prems"(1)] by blast
      then have "guarded B pats' ab' (replace old [] (drop (length old) s))"
        using "1.hyps"(1) old Cons True "1.prems" by simp
      then have f: "guarded B pats' False (replace old [] s)"
        using old True by (simp add: replace_match guarded_weaken)
      from "1.prems"(1,3) True Cons have "\<not> ab" by auto
      with f show ?thesis by simp
    next
      case False
      from "1.prems"(1) Cons have g: "guarded B pats (c \<in> B) cs" by simp
      then have rec: "guarded B pats' (c \<in> B) (replace old [] cs)"
        using "1.hyps"(2) old Cons False "1.prems" by simp
      have "\<not> prefix pat (c # replace old [] cs)" if "ab" and "pat \<in> set pats'" for pat
      proof -
        from that assms(3,4) have "pat \<in> set pats" and "set (butlast pat) \<subseteq> B" by auto
        with "1.prems"(1) Cons \<open>ab\<close> have "\<not> prefix pat (c # cs)" by simp
        then show ?thesis
          using prefix_step_guarded [OF old "1.prems"(3) \<open>set (butlast pat) \<subseteq> B\<close> g] by blast
      qed
      with rec have "guarded B pats' ab (c # replace old [] cs)" by simp
      then show ?thesis using old False Cons by (simp add: replace_skip)
    qed
  qed
qed

section \<open>\<^verbatim>\<open>rewrite_links\<close> by destination\<close>

lemma rewrite_links_index:
  "rewrite_links ''index.md'' s =
     replace ''./LICENSE'' license_url
       (replace ''./_templates/'' ''_templates/'' (replace ''./docs/'' '''' s))"
  by (simp add: rewrite_links_def)

lemma rewrite_links_agents: "rewrite_links ''AGENTS.md'' s = replace ''./docs/'' '''' s"
  by (simp add: rewrite_links_def)

lemma rewrite_links_other:
  "name \<noteq> ''index.md'' \<Longrightarrow> name \<noteq> ''AGENTS.md'' \<Longrightarrow> rewrite_links name s = s"
  by (simp add: rewrite_links_def)

lemmas run_eval = run_def SOURCES_def rewrite_links_def license_url_def replace_eval

lemma license_removed: "\<not> contains ''./LICENSE'' (replace ''./LICENSE'' license_url t)"
  by (rule replace_removes) (simp_all add: license_url_def)

lemma docs_removed:
  assumes "well_separated s"
  shows "\<not> contains ''./docs/'' (replace ''./docs/'' '''' s)"
  by (rule replace_removes_guarded [OF _ _ _ _ assms [unfolded well_separated_def]]) simp_all

lemma templates_removed:
  assumes "well_separated s"
  shows "\<not> contains ''./_templates/''
           (replace ''./_templates/'' ''_templates/'' (replace ''./docs/'' '''' s))"
proof -
  have "guarded (set (''./docs/'' @ ''./_templates/'')) [''./_templates/''] False
          (replace ''./docs/'' '''' s)"
    by (rule guarded_replace_empty [OF _ _ _ _ assms [unfolded well_separated_def]]) simp_all
  then show ?thesis
    by (rule replace_removes_guarded [rotated 4]) simp_all
qed

lemma templates_keep_docs:
  "\<not> contains ''./docs/'' t \<Longrightarrow> \<not> contains ''./docs/'' (replace ''./_templates/'' ''_templates/'' t)"
  by (rule replace_keeps_absent) simp_all

lemma license_keeps_docs:
  "\<not> contains ''./docs/'' t \<Longrightarrow> \<not> contains ''./docs/'' (replace ''./LICENSE'' license_url t)"
  by (rule replace_keeps_absent) (simp_all add: license_url_def)

lemma license_keeps_templates:
  "\<not> contains ''./_templates/'' t \<Longrightarrow>
     \<not> contains ''./_templates/'' (replace ''./LICENSE'' license_url t)"
  by (rule replace_keeps_absent) (simp_all add: license_url_def)

lemma index_clean:
  assumes "well_separated s"
  shows "\<not> contains ''./docs/'' (rewrite_links ''index.md'' s)"
    and "\<not> contains ''./_templates/'' (rewrite_links ''index.md'' s)"
proof -
  show "\<not> contains ''./docs/'' (rewrite_links ''index.md'' s)"
    unfolding rewrite_links_index
    by (intro license_keeps_docs templates_keep_docs docs_removed assms)
  show "\<not> contains ''./_templates/'' (rewrite_links ''index.md'' s)"
    unfolding rewrite_links_index
    by (intro license_keeps_templates templates_removed assms)
qed

lemma index_no_license: "\<not> contains ''./LICENSE'' (rewrite_links ''index.md'' s)"
  unfolding rewrite_links_index by (rule license_removed)

lemma search_strings_absent:
  assumes "\<forall>pat \<in> set (search_strings name). \<not> contains pat s"
  shows "rewrite_links name s = s"
proof -
  consider "name = ''index.md''" | "name = ''AGENTS.md''"
    | "name \<noteq> ''index.md''" "name \<noteq> ''AGENTS.md''" by blast
  then show ?thesis
  proof cases
    case 1
    with assms have "\<not> contains ''./docs/'' s" "\<not> contains ''./_templates/'' s"
      "\<not> contains ''./LICENSE'' s" by (simp_all add: search_strings_def)
    with 1 show ?thesis by (simp add: rewrite_links_index replace_absent)
  next
    case 2
    with assms have "\<not> contains ''./docs/'' s" by (simp add: search_strings_def)
    with 2 show ?thesis by (simp add: rewrite_links_agents replace_absent)
  next
    case 3
    then show ?thesis by (rule rewrite_links_other)
  qed
qed

lemma well_separated_output:
  assumes "well_separated s"
  shows "\<forall>pat \<in> set (search_strings name). \<not> contains pat (rewrite_links name s)"
proof -
  consider "name = ''index.md''" | "name = ''AGENTS.md''"
    | "name \<noteq> ''index.md''" "name \<noteq> ''AGENTS.md''" by blast
  then show ?thesis
  proof cases
    case 1
    then show ?thesis
      using index_clean [OF assms] index_no_license [of s] by (simp add: search_strings_def)
  next
    case 2
    then show ?thesis
      using docs_removed [OF assms] by (simp add: search_strings_def rewrite_links_agents)
  next
    case 3
    then show ?thesis by (simp add: search_strings_def)
  qed
qed

section \<open>The staging loop\<close>

text \<open>
  The loop writes the pages of the longest initial part of the table whose entries all
  succeed, and ends with the exception of the first entry that does not.
\<close>

lemma stage_char:
  "stage h srcs pages =
     (pages @ map (page_of h) (takeWhile (staged h) srcs),
      case dropWhile (staged h) srcs of [] \<Rightarrow> None | e # rest \<Rightarrow> failure_of h e)"
proof (induction srcs arbitrary: pages)
  case Nil
  show ?case by simp
next
  case (Cons e srcs)
  obtain target source where e: "e = (target, source)" by (cases e)
  show ?case
  proof (cases "read_text h source")
    case (Inl x)
    with e show ?thesis by (simp add: staged_def failure_of_def)
  next
    case (Inr body)
    show ?thesis
    proof (cases "write_page h target (rewrite_links target body)")
      case None
      with Inr e have "staged h e" by (simp add: staged_def)
      moreover have "stage h (e # srcs) pages =
          stage h srcs (pages @ [(target, rewrite_links target body)])"
        using Inr None e by simp
      moreover have "page_of h e = (target, rewrite_links target body)"
        using Inr e by (simp add: page_of_def)
      ultimately show ?thesis by (simp add: Cons.IH)
    next
      case (Some x)
      with Inr e show ?thesis by (simp add: staged_def failure_of_def)
    qed
  qed
qed

lemma failure_of_None: "failure_of h e = None \<longleftrightarrow> staged h e"
  by (simp add: failure_of_def staged_def split: sum.split)

lemma run_pages: "fst (run h) = map (page_of h) (takeWhile (staged h) SOURCES)"
  by (simp add: run_def stage_char)

lemma run_success_iff: "snd (run h) = None \<longleftrightarrow> (\<forall>e \<in> set SOURCES. staged h e)"
proof
  assume a: "snd (run h) = None"
  have "dropWhile (staged h) SOURCES = []"
  proof (cases "dropWhile (staged h) SOURCES")
    case Nil
    then show ?thesis .
  next
    case (Cons e rest)
    with a have "staged h e" by (simp add: run_def stage_char failure_of_None)
    moreover have "\<not> staged h (hd (dropWhile (staged h) SOURCES))"
      using Cons hd_dropWhile [of "staged h" SOURCES] by simp
    ultimately show ?thesis using Cons by simp
  qed
  then show "\<forall>e \<in> set SOURCES. staged h e" by (simp add: dropWhile_eq_Nil_conv)
next
  assume "\<forall>e \<in> set SOURCES. staged h e"
  then have dw: "dropWhile (staged h) SOURCES = []" by simp
  show "snd (run h) = None" by (simp only: run_def stage_char dw list.case snd_conv)
qed

lemma SOURCES_keys:
  "map fst SOURCES =
     [''index.md'', ''AGENTS.md'', ''_templates/TOPIC_TEMPLATE.md'',
      ''_templates/SECTION_TEMPLATE.md'', ''_templates/FRONT_MATTER.md'']"
  by (simp add: SOURCES_def)

lemma SOURCES_distinct: "distinct (map fst SOURCES)"
  by (simp add: SOURCES_keys)

lemma map_fst_page_of: "map fst (map (page_of h) xs) = map fst xs"
  by (simp add: page_of_def comp_def)

lemma run_success:
  assumes "run h = (pages, None)"
  shows "pages = map (page_of h) SOURCES"
proof -
  from assms have "snd (run h) = None" by simp
  then have "\<forall>e \<in> set SOURCES. staged h e" by (simp add: run_success_iff)
  then have "takeWhile (staged h) SOURCES = SOURCES" by simp
  with run_pages [of h] assms show ?thesis by simp
qed

lemma takeWhile_stops:
  assumes "i < length xs" and "\<not> P (xs ! i)"
  shows "length (takeWhile P xs) \<le> i"
proof (rule ccontr)
  assume "\<not> length (takeWhile P xs) \<le> i"
  then have lt: "i < length (takeWhile P xs)" by simp
  then have "takeWhile P xs ! i = xs ! i" by (rule takeWhile_nth)
  moreover from lt have "takeWhile P xs ! i \<in> set (takeWhile P xs)" by simp
  ultimately have "P (xs ! i)" by (metis set_takeWhileD)
  with assms(2) show False ..
qed

lemma run_written_prefix:
  "map fst (fst (run h)) = take (length (takeWhile (staged h) SOURCES)) (map fst SOURCES)"
proof -
  have "takeWhile (staged h) SOURCES = take (length (takeWhile (staged h) SOURCES)) SOURCES"
    by (rule takeWhile_eq_take)
  then have "map fst (takeWhile (staged h) SOURCES) =
      take (length (takeWhile (staged h) SOURCES)) (map fst SOURCES)"
    by (metis take_map)
  moreover have "map fst (fst (run h)) = map fst (takeWhile (staged h) SOURCES)"
    unfolding run_pages by (rule map_fst_page_of)
  ultimately show ?thesis by simp
qed

lemma read_failure_not_staged: "read_text h (snd e) = Inl x \<Longrightarrow> \<not> staged h e"
  by (simp add: staged_def)

lemma later_not_written:
  assumes "i < length SOURCES" and "\<not> staged h (SOURCES ! i)"
    and "i \<le> j" and "j < length SOURCES"
  shows "fst (SOURCES ! j) \<notin> set (map fst (fst (run h)))"
proof
  let ?n = "length (takeWhile (staged h) SOURCES)"
  let ?ks = "map fst SOURCES"
  assume "fst (SOURCES ! j) \<in> set (map fst (fst (run h)))"
  then have "?ks ! j \<in> set (take ?n ?ks)"
    using assms(4) by (simp add: run_written_prefix)
  then obtain k where k: "k < ?n" "k < length ?ks" "?ks ! k = ?ks ! j"
    by (auto simp: in_set_conv_nth)
  have "?n \<le> i" using assms(1,2) by (rule takeWhile_stops)
  with k(1) assms(3) have "k \<noteq> j" by simp
  moreover have "k = j"
    using nth_eq_iff_index_eq [OF SOURCES_distinct, of k j] k(2,3) assms(4) by simp
  ultimately show False ..
qed

lemma first_failure:
  assumes "i < length SOURCES" and "\<not> staged h (SOURCES ! i)"
    and "\<forall>j<i. staged h (SOURCES ! j)"
  shows "run h = (map (page_of h) (take i SOURCES), failure_of h (SOURCES ! i))"
proof -
  have le: "length (takeWhile (staged h) SOURCES) \<le> i"
    using assms(1,2) by (rule takeWhile_stops)
  have "i \<le> length (takeWhile (staged h) SOURCES)"
    using assms(1,3) by (intro length_takeWhile_less_P_nth) auto
  with le have n: "length (takeWhile (staged h) SOURCES) = i" by simp
  have tw: "takeWhile (staged h) SOURCES = take i SOURCES"
    using takeWhile_eq_take [of "staged h" SOURCES] n by simp
  have "dropWhile (staged h) SOURCES = drop i SOURCES"
    using dropWhile_eq_drop [of "staged h" SOURCES] n by simp
  also have "\<dots> = SOURCES ! i # drop (Suc i) SOURCES"
    using assms(1) by (simp add: Cons_nth_drop_Suc)
  finally have dw: "dropWhile (staged h) SOURCES = SOURCES ! i # drop (Suc i) SOURCES" .
  show ?thesis by (simp add: run_def stage_char tw dw)
qed

lemma written_page:
  assumes "(t, w) \<in> set (fst (run h))" and "(t, p) \<in> set SOURCES"
  shows "\<exists>text. read_text h p = Inr text \<and> w = rewrite_links t text"
proof -
  from assms(1) obtain e where e: "e \<in> set (takeWhile (staged h) SOURCES)"
    and tw: "(t, w) = page_of h e"
    by (auto simp: run_pages)
  from e have st: "staged h e" and mem: "e \<in> set SOURCES"
    by (auto dest: set_takeWhileD)
  from tw have "fst e = t" by (simp add: page_of_def)
  with mem assms(2) SOURCES_distinct have "e = (t, p)"
    by (metis eq_key_imp_eq_value prod.collapse)
  with st obtain body where "read_text h p = Inr body"
    by (auto simp: staged_def split: sum.splits)
  with tw \<open>e = (t, p)\<close> show ?thesis by (simp add: page_of_def)
qed

section \<open>Properties of the stager\<close>

text \<open>
  C1 (as amended). For the destination \<^verbatim>\<open>index.md\<close> the output of \<^verbatim>\<open>rewrite_links\<close> never
  contains \<^verbatim>\<open>./LICENSE\<close>. It contains neither \<^verbatim>\<open>./docs/\<close> nor \<^verbatim>\<open>./_templates/\<close> when the
  input is well separated: every occurrence of these two strings in the input starts the
  text or follows a character that occurs in neither of them.
\<close>

theorem index_output_free:
  "\<not> contains ''./LICENSE'' (rewrite_links ''index.md'' s) \<and>
   (well_separated s \<longrightarrow>
      \<not> contains ''./docs/'' (rewrite_links ''index.md'' s) \<and>
      \<not> contains ''./_templates/'' (rewrite_links ''index.md'' s))"
  using index_no_license index_clean by blast

text \<open>A README line with the three kinds of link is well separated and comes out clean.\<close>

theorem index_output_free_witness:
  "well_separated ''[a](./docs/x.md) [t](./_templates/T.md) [l](./LICENSE)'' \<and>
   rewrite_links ''index.md'' ''[a](./docs/x.md) [t](./_templates/T.md) [l](./LICENSE)'' =
     ''[a](x.md) [t](_templates/T.md) [l](https://github.com/artificial-intelligence-first/ssot/blob/main/LICENSE)'' \<and>
   \<not> contains ''./LICENSE''
     (rewrite_links ''index.md'' ''[a](./docs/x.md) [t](./_templates/T.md) [l](./LICENSE)'') \<and>
   \<not> contains ''./docs/''
     (rewrite_links ''index.md'' ''[a](./docs/x.md) [t](./_templates/T.md) [l](./LICENSE)'') \<and>
   \<not> contains ''./_templates/''
     (rewrite_links ''index.md'' ''[a](./docs/x.md) [t](./_templates/T.md) [l](./LICENSE)'')"
proof -
  have ws: "well_separated ''[a](./docs/x.md) [t](./_templates/T.md) [l](./LICENSE)''"
    by (simp add: well_separated_def)
  have ev: "rewrite_links ''index.md'' ''[a](./docs/x.md) [t](./_templates/T.md) [l](./LICENSE)'' =
     ''[a](x.md) [t](_templates/T.md) [l](https://github.com/artificial-intelligence-first/ssot/blob/main/LICENSE)''"
    by (simp add: rewrite_links_index license_url_def replace_eval)
  show ?thesis
    using index_output_free [of "''[a](./docs/x.md) [t](./_templates/T.md) [l](./LICENSE)''"] ws ev
    by blast
qed

text \<open>
  Without the separation the property fails: the input below contains \<^verbatim>\<open>./docs/\<close>, and the
  output contains \<^verbatim>\<open>./docs/\<close> and \<^verbatim>\<open>./_templates/\<close>, each formed by the text around a match
  that was replaced.
\<close>

theorem index_output_free_counterexample:
  "contains ''./docs/'' ''./doc./docs/s/ ././_templates/_templates/'' \<and>
   contains ''./docs/''
     (rewrite_links ''index.md'' ''./doc./docs/s/ ././_templates/_templates/'') \<and>
   contains ''./_templates/''
     (rewrite_links ''index.md'' ''./doc./docs/s/ ././_templates/_templates/'')"
  by (simp add: rewrite_links_index license_url_def replace_eval)

text \<open>
  C2 (as amended). Applying \<^verbatim>\<open>rewrite_links\<close> to its own output changes nothing when the
  output contains none of the destination's search strings; this is so for every
  destination without rules, and for \<^verbatim>\<open>index.md\<close> and \<^verbatim>\<open>AGENTS.md\<close> when the input is well
  separated.
\<close>

theorem rewrite_twice:
  assumes "well_separated s \<or>
    (\<forall>pat \<in> set (search_strings name). \<not> contains pat (rewrite_links name s))"
  shows "rewrite_links name (rewrite_links name s) = rewrite_links name s"
  using assms well_separated_output search_strings_absent by blast

theorem rewrite_twice_witness:
  "well_separated ''[a](./docs/x.md) [t](./_templates/T.md) [l](./LICENSE)'' \<and>
   rewrite_links ''index.md''
     (rewrite_links ''index.md'' ''[a](./docs/x.md) [t](./_templates/T.md) [l](./LICENSE)'') =
   rewrite_links ''index.md'' ''[a](./docs/x.md) [t](./_templates/T.md) [l](./LICENSE)'' \<and>
   rewrite_links ''AGENTS.md'' (rewrite_links ''AGENTS.md'' ''See ./docs/guide.md'') =
   rewrite_links ''AGENTS.md'' ''See ./docs/guide.md''"
proof -
  have ws: "well_separated ''[a](./docs/x.md) [t](./_templates/T.md) [l](./LICENSE)''"
    "well_separated ''See ./docs/guide.md''"
    by (simp_all add: well_separated_def)
  show ?thesis
    using rewrite_twice [of "''[a](./docs/x.md) [t](./_templates/T.md) [l](./LICENSE)''" "''index.md''"]
      rewrite_twice [of "''See ./docs/guide.md''" "''AGENTS.md''"] ws
    by blast
qed

text \<open>For \<^verbatim>\<open>AGENTS.md\<close> the second application removes the \<^verbatim>\<open>./docs/\<close> that the first one formed.\<close>

theorem rewrite_twice_counterexample:
  "rewrite_links ''AGENTS.md'' (rewrite_links ''AGENTS.md'' ''./doc./docs/s/'') \<noteq>
   rewrite_links ''AGENTS.md'' ''./doc./docs/s/''"
  by (simp add: rewrite_links_agents replace_eval)

text \<open>
  C3. For \<^verbatim>\<open>index.md\<close>, \<^verbatim>\<open>rewrite_links\<close> is the application of the three declared rules in
  their order: \<^verbatim>\<open>./docs/\<close> to the empty string, \<^verbatim>\<open>./_templates/\<close> to \<^verbatim>\<open>_templates/\<close>, and
  \<^verbatim>\<open>./LICENSE\<close> to the URL of the license.
\<close>

theorem index_refines_rules: "rewrite_links ''index.md'' s = spec_apply_rules spec_index_rules s"
  by (simp add: rewrite_links_index spec_index_rules_def license_url_def replace_is_split_join)

text \<open>
  C4. For \<^verbatim>\<open>AGENTS.md\<close>, \<^verbatim>\<open>rewrite_links\<close> is the single rule for \<^verbatim>\<open>./docs/\<close>: every occurrence
  of \<^verbatim>\<open>./docs/\<close> in the input is removed, a text without one is unchanged, and the example
  sentence of the specification becomes \<^verbatim>\<open>See guide.md for details.\<close>
\<close>

theorem agents_removes_docs:
  "rewrite_links ''AGENTS.md'' s = replace ''./docs/'' '''' s \<and>
   rewrite_links ''AGENTS.md'' (u @ ''./docs/'' @ v) =
     rewrite_links ''AGENTS.md'' u @ rewrite_links ''AGENTS.md'' v \<and>
   (\<not> contains ''./docs/'' s \<longrightarrow> rewrite_links ''AGENTS.md'' s = s) \<and>
   rewrite_links ''AGENTS.md'' ''See ./docs/guide.md for details.'' = ''See guide.md for details.''"
proof -
  have "replace ''./docs/'' '''' (u @ ''./docs/'' @ v) =
      replace ''./docs/'' '''' u @ '''' @ replace ''./docs/'' '''' v"
    by (rule replace_occurrence) simp_all
  moreover have "replace ''./docs/'' '''' ''See ./docs/guide.md for details.'' =
      ''See guide.md for details.''"
    by (simp add: replace_eval)
  ultimately show ?thesis
    by (simp add: rewrite_links_agents replace_absent)
qed

theorem agents_removes_docs_witness:
  "\<not> contains ''./docs/'' ''See guide.md'' \<and>
   rewrite_links ''AGENTS.md'' ''See guide.md'' = ''See guide.md'' \<and>
   rewrite_links ''AGENTS.md'' ''a ./docs/b ./docs/c'' = ''a b c''"
  using agents_removes_docs [of "''See guide.md''"]
    agents_removes_docs [of "''a ./docs/b ./docs/c''"]
  by (simp add: replace_eval)

text \<open>
  C5. For every destination other than \<^verbatim>\<open>index.md\<close> and \<^verbatim>\<open>AGENTS.md\<close>, \<^verbatim>\<open>rewrite_links\<close> returns
  its input, so the page written for such a destination is the text read from its source.
\<close>

theorem other_destinations_verbatim:
  assumes "name \<noteq> ''index.md''" and "name \<noteq> ''AGENTS.md''"
  shows "rewrite_links name s = s \<and>
    ((name, w) \<in> set (fst (run h)) \<and> (name, p) \<in> set SOURCES \<longrightarrow> read_text h p = Inr w)"
proof -
  have eq: "rewrite_links name x = x" for x
    using assms by (rule rewrite_links_other)
  have "read_text h p = Inr w" if "(name, w) \<in> set (fst (run h))" and "(name, p) \<in> set SOURCES"
    using written_page [OF that] eq by auto
  with eq show ?thesis by blast
qed

theorem other_destinations_verbatim_witness:
  "rewrite_links ''_templates/TOPIC_TEMPLATE.md'' ''[a](./docs/x.md)'' = ''[a](./docs/x.md)'' \<and>
   rewrite_links ''_templates/SECTION_TEMPLATE.md'' ''[a](./docs/x.md)'' = ''[a](./docs/x.md)'' \<and>
   rewrite_links ''_templates/FRONT_MATTER.md'' ''[a](./docs/x.md)'' = ''[a](./docs/x.md)'' \<and>
   (''_templates/TOPIC_TEMPLATE.md'', ''[a](./docs/x.md)'') \<in> set (fst (run host_ok)) \<and>
   read_text host_ok (Slash ROOT ''_templates/TOPIC_TEMPLATE.md'') = Inr ''[a](./docs/x.md)''"
proof -
  have w: "(''_templates/TOPIC_TEMPLATE.md'', ''[a](./docs/x.md)'') \<in> set (fst (run host_ok))"
    by (simp add: run_eval host_ok_def)
  have p: "(''_templates/TOPIC_TEMPLATE.md'', Slash ROOT ''_templates/TOPIC_TEMPLATE.md'')
      \<in> set SOURCES"
    by (simp add: SOURCES_def)
  show ?thesis
    using other_destinations_verbatim [of "''_templates/TOPIC_TEMPLATE.md''" "''[a](./docs/x.md)''"
        "''[a](./docs/x.md)''" host_ok "Slash ROOT ''_templates/TOPIC_TEMPLATE.md''"]
      other_destinations_verbatim [of "''_templates/SECTION_TEMPLATE.md''" "''[a](./docs/x.md)''"]
      other_destinations_verbatim [of "''_templates/FRONT_MATTER.md''" "''[a](./docs/x.md)''"]
      w p
    by simp
qed

text \<open>
  C6. A run that ends without an exception has written exactly the five destinations of
  the mapping table, each once, in the order of the table.
\<close>

theorem successful_run_pages:
  assumes "run h = (pages, None)"
  shows "map fst pages =
      [''index.md'', ''AGENTS.md'', ''_templates/TOPIC_TEMPLATE.md'',
       ''_templates/SECTION_TEMPLATE.md'', ''_templates/FRONT_MATTER.md''] \<and>
    map fst pages = map fst SOURCES \<and> distinct (map fst pages) \<and>
    pages = map (page_of h) SOURCES"
proof -
  have "pages = map (page_of h) SOURCES" using assms by (rule run_success)
  moreover from this have "map fst pages = map fst SOURCES" by (simp only: map_fst_page_of)
  ultimately show ?thesis using SOURCES_keys SOURCES_distinct by simp
qed

theorem successful_run_pages_witness:
  "snd (run host_ok) = None \<and>
   map fst (fst (run host_ok)) =
      [''index.md'', ''AGENTS.md'', ''_templates/TOPIC_TEMPLATE.md'',
       ''_templates/SECTION_TEMPLATE.md'', ''_templates/FRONT_MATTER.md'']"
proof -
  have ok: "snd (run host_ok) = None"
    by (simp add: run_eval host_ok_def)
  then have "run host_ok = (fst (run host_ok), None)"
    by (metis prod.collapse)
  from successful_run_pages [OF this] ok show ?thesis by blast
qed

text \<open>
  C7. When reading the source of entry \<open>i\<close> fails, the run ends with an exception, and
  neither the destination of entry \<open>i\<close> nor any later one is written. When the entries
  before \<open>i\<close> all succeed, the pages written are exactly theirs and the exception is the one
  raised by the read.
\<close>

theorem read_failure_aborts:
  assumes "i < length SOURCES" and "read_text h (snd (SOURCES ! i)) = Inl e"
  shows "snd (run h) \<noteq> None \<and>
    (\<forall>j. i \<le> j \<and> j < length SOURCES \<longrightarrow> fst (SOURCES ! j) \<notin> set (map fst (fst (run h)))) \<and>
    ((\<forall>j<i. staged h (SOURCES ! j)) \<longrightarrow>
       run h = (map (page_of h) (take i SOURCES), Some e))"
proof -
  have ns: "\<not> staged h (SOURCES ! i)"
    using assms(2) by (rule read_failure_not_staged)
  have "SOURCES ! i \<in> set SOURCES" using assms(1) by simp
  with ns have "snd (run h) \<noteq> None" by (auto simp: run_success_iff)
  moreover have "fst (SOURCES ! j) \<notin> set (map fst (fst (run h)))"
    if "i \<le> j" and "j < length SOURCES" for j
    using assms(1) ns that by (rule later_not_written)
  moreover have "run h = (map (page_of h) (take i SOURCES), Some e)"
    if "\<forall>j<i. staged h (SOURCES ! j)"
    using first_failure [OF assms(1) ns that] assms(2) by (simp add: failure_of_def)
  ultimately show ?thesis by blast
qed

theorem read_failure_aborts_witness:
  "run host_no_agents =
     ([(''index.md'', ''[a](x.md)'')], Some (FileNotFoundError (Slash ROOT ''AGENTS.md''))) \<and>
   ''AGENTS.md'' \<notin> set (map fst (fst (run host_no_agents))) \<and>
   ''_templates/FRONT_MATTER.md'' \<notin> set (map fst (fst (run host_no_agents)))"
proof -
  have i: "(1::nat) < length SOURCES" by (simp add: SOURCES_def)
  have r: "read_text host_no_agents (snd (SOURCES ! 1)) =
      Inl (FileNotFoundError (Slash ROOT ''AGENTS.md''))"
    by (simp add: SOURCES_def host_no_agents_def)
  have ev: "run host_no_agents =
     ([(''index.md'', ''[a](x.md)'')], Some (FileNotFoundError (Slash ROOT ''AGENTS.md'')))"
    by (simp add: run_eval host_no_agents_def)
  from read_failure_aborts [OF i r] ev show ?thesis by simp
qed

text \<open>
  C8. When the input contains none of the search strings of the destination,
  \<^verbatim>\<open>rewrite_links\<close> returns it unchanged. (\<^verbatim>\<open>rewrite_links\<close> is total: it has no failing branch.)
\<close>

theorem no_match_unchanged:
  assumes "\<forall>pat \<in> set (search_strings name). \<not> contains pat s"
  shows "rewrite_links name s = s"
  using assms by (rule search_strings_absent)

theorem no_match_unchanged_witness:
  "search_strings ''index.md'' = [''./docs/'', ''./_templates/'', ''./LICENSE''] \<and>
   search_strings ''AGENTS.md'' = [''./docs/''] \<and>
   rewrite_links ''index.md'' ''see docs/x.md'' = ''see docs/x.md'' \<and>
   rewrite_links ''AGENTS.md'' ''see ./LICENSE'' = ''see ./LICENSE''"
  using no_match_unchanged [of "''index.md''" "''see docs/x.md''"]
    no_match_unchanged [of "''AGENTS.md''" "''see ./LICENSE''"]
  by (simp add: search_strings_def)

text \<open>
  C10. A rule is one scan from the left: with the first match of \<open>old\<close> right behind \<open>u\<close>,
  the output starts with \<open>u\<close> and \<open>new\<close> and is not read again, so an occurrence formed by
  \<open>u\<close>, \<open>new\<close> and what follows stays. For \<^verbatim>\<open>AGENTS.md\<close> the text \<^verbatim>\<open>./doc./docs/s/\<close> becomes
  \<^verbatim>\<open>./docs/\<close>.
\<close>

theorem single_scan:
  assumes "old \<noteq> []" and "\<not> contains old (u @ butlast old)"
  shows "replace old new (u @ old @ v) = u @ new @ replace old new v \<and>
    rewrite_links ''AGENTS.md'' ''./doc./docs/s/'' = ''./docs/''"
proof -
  have "replace old new (u @ old @ v) = u @ new @ replace old new v"
    using assms by (rule replace_first_match)
  moreover have "rewrite_links ''AGENTS.md'' ''./doc./docs/s/'' = ''./docs/''"
    by (simp add: rewrite_links_agents replace_eval)
  ultimately show ?thesis ..
qed

theorem single_scan_witness:
  "replace ''./docs/'' '''' (''./doc'' @ ''./docs/'' @ ''s/'') = ''./doc'' @ ''s/'' \<and>
   contains ''./docs/'' (replace ''./docs/'' '''' ''./doc./docs/s/'') \<and>
   contains ''./_templates/''
     (replace ''./_templates/'' ''_templates/'' ''././_templates/_templates/'')"
proof -
  have "replace ''./docs/'' '''' (''./doc'' @ ''./docs/'' @ ''s/'') =
      ''./doc'' @ '''' @ replace ''./docs/'' '''' ''s/''"
    using single_scan [of "''./docs/''" "''./doc''" "''''" "''s/''"] by simp
  then show ?thesis by (simp add: replace_eval)
qed

end
